theory Spec2Isabelle
  imports Complex_Main "HOL-Library.Word" "HOL-Library.Multiset"
begin

section \<open>The C binding of the BooPHF minimal perfect hash function\<close>

text \<open>
  The repository is a C-linkage binding: \<^verbatim>\<open>mphf_new\<close>, \<^verbatim>\<open>mphf_lookup\<close>,
  \<^verbatim>\<open>mphf_save\<close> and \<^verbatim>\<open>mphf_load\<close> (the C++ unit stored beside the workflow file) and
  \<^verbatim>\<open>new_mphf\<close> (\<^verbatim>\<open>boomphf-sys/ffi.cpp\<close>). Each function marshals its arguments and
  forwards to the class \<^verbatim>\<open>boomphf::mphf<uint64_t, hasher_t>\<close> of \<^verbatim>\<open>BooPHF.h\<close>. That header
  is not among the sources. The binding is embedded from its code. Where a property
  of the binding holds for every library, the library's methods are parameters of the
  embedded function; the class itself is modelled from the specification, and what
  neither the sources nor the specification settle is a parameter of that model.
\<close>

subsection \<open>Machine types\<close>

type_synonym u64 = "64 word"
type_synonym byte = "8 word"
type_synonym c_int = "32 word"

text \<open>
  A \<^verbatim>\<open>double\<close> is its IEEE 754 binary64 bit pattern. \<open>double_value\<close> is the exact real
  number a finite pattern denotes: a sign bit, eleven exponent bits and fifty-two
  fraction bits. Products with a \<^verbatim>\<open>double\<close> are taken in the reals; rounding of the
  hardware product is not modelled.
\<close>

type_synonym double = u64

definition is_finite :: "double \<Rightarrow> bool" where
  "is_finite d = ((unat d div 2 ^ 52) mod 2048 < 2047)"

definition double_value :: "double \<Rightarrow> real" where
  "double_value d =
     (let u = unat d; e = (u div 2 ^ 52) mod 2048; m = u mod 2 ^ 52
      in (if u div 2 ^ 63 = 1 then - 1 else 1) *
         (real (if e = 0 then 2 * m else (2 ^ 52 + m) * 2 ^ e) / 2 ^ 1075))"

text \<open>The constants the binding passes: \<^verbatim>\<open>1\<close> converted to \<^verbatim>\<open>double\<close>, and \<^verbatim>\<open>2.0\<close>.\<close>

definition double_one :: double where
  "double_one = 0x3FF0000000000000"

definition double_two :: double where
  "double_two = 0x4000000000000000"

subsection \<open>The engine\<close>

text \<open>
  Modelled from the spec: the data model of section 3, for the members of the class
  \<^verbatim>\<open>boomphf::mphf\<close>, which \<^verbatim>\<open>BooPHF.h\<close> declares. A level holds the bitvector of
  its occupied slots (the slot count is its length) and the rank of its first slot;
  the block-granular rank table of the specification is an index structure over the
  same bitvector and is represented by the rank function below. The engine owns the
  levels, the fallback exact table, gamma and N.
\<close>

record level =
  bitset :: "bool list"
  rank_offset :: u64

record engine =
  gamma :: double
  nelem :: u64
  levels :: "level list"
  fallback :: "(u64 \<times> u64) list"

text \<open>Modelled from the spec: the error taxonomy of section 7, as far as the binding meets it.\<close>

datatype error = ConstructionError | FormatError

subsection \<open>What the header settles and the sources do not show\<close>

text \<open>
  \<^verbatim>\<open>hasher_t\<close> is \<^verbatim>\<open>boomphf::SingleHashFunctor<uint64_t>\<close>, a template argument whose
  definition is in the header: \<open>level_hash B i k\<close> is the hash of key \<open>k\<close> under the seed
  of level \<open>i\<close>. \<open>max_levels\<close> is the depth guard of the construction, \<open>absent\<close> the value
  a lookup returns for a key that no level claims and the fallback table does not hold,
  and \<open>default_flags\<close> the default values of the two trailing constructor arguments.

  The specification does not say in which state a rejected load leaves the object it
  was called on: \<open>after_rejected\<close> gives that state, from the object and the bytes
  of the stream.
\<close>

record boophf =
  level_hash :: "nat \<Rightarrow> u64 \<Rightarrow> u64"
  max_levels :: u64
  absent :: u64
  default_flags :: "bool \<times> bool"
  after_rejected :: "engine \<Rightarrow> byte list \<Rightarrow> engine"

subsection \<open>Construction\<close>

text \<open>
  Modelled from the spec: the level filter of section 2, step 1 (the class's code is in
  \<^verbatim>\<open>BooPHF.h\<close>). Each slot has a two-bit counter: unset, set once, collided.
\<close>

datatype counter = Unset | SetOnce | Collided

fun bump :: "counter \<Rightarrow> counter" where
  "bump Unset = SetOnce"
| "bump SetOnce = Collided"
| "bump Collided = Collided"

text \<open>
  Modelled from the spec: the slot count of a level is \<open>N_level * gamma\<close>, rounded up.
  A gamma that is not finite gives no slot count (the conversion of such a product to
  an integer is undefined in C); the model has no slot then.
\<close>

definition slot_count :: "double \<Rightarrow> nat \<Rightarrow> nat" where
  "slot_count g m = (if is_finite g then nat \<lceil>real m * double_value g\<rceil> else 0)"

text \<open>
  Modelled from the spec: the probing pass of one worker. Every key of its subrange is
  probed into a scratch array of counters, at the slot its hash under the level's
  seed selects. A level without slots is probed nowhere.
\<close>

definition slot :: "boophf \<Rightarrow> nat \<Rightarrow> nat \<Rightarrow> u64 \<Rightarrow> nat" where
  "slot B i m k = unat (level_hash B i k) mod m"

definition probe :: "counter list \<Rightarrow> nat \<Rightarrow> counter list" where
  "probe cs j = (if j < length cs then cs[j := bump (cs ! j)] else cs)"

definition level_filter :: "boophf \<Rightarrow> nat \<Rightarrow> nat \<Rightarrow> u64 list \<Rightarrow> counter list" where
  "level_filter B i m ks = fold (\<lambda>k cs. probe cs (slot B i m k)) ks (replicate m Unset)"

text \<open>
  Modelled from the spec: section 4.1, the pass of a level over the supplied thread
  count. The keys are cut into one subrange per worker, every worker probes its
  subrange into a collision bitmap of its own, and a reduction merges the bitmaps
  before the next level starts. Which worker runs when is not modelled: the merge is
  taken in the order of the subranges.
\<close>

definition subranges :: "nat \<Rightarrow> 'a list \<Rightarrow> 'a list list" where
  "subranges T ks =
     (let c = (length ks + T - 1) div T
      in map (\<lambda>t. take c (drop (t * c) ks)) [0..<T])"

fun merge :: "counter \<Rightarrow> counter \<Rightarrow> counter" where
  "merge Unset c = c"
| "merge c Unset = c"
| "merge c d = Collided"

definition merge_bitmaps :: "counter list \<Rightarrow> counter list \<Rightarrow> counter list" where
  "merge_bitmaps a b = map (\<lambda>(x, y). merge x y) (zip a b)"

definition level_pass :: "boophf \<Rightarrow> nat \<Rightarrow> nat \<Rightarrow> nat \<Rightarrow> u64 list \<Rightarrow> counter list" where
  "level_pass B i m T ks =
     fold merge_bitmaps (map (level_filter B i m) (subranges T ks)) (replicate m Unset)"

text \<open>
  Modelled from the spec: the keys that collide at the level fall through to the next
  one (section 2, step 3). Every worker hands on the colliding keys of its subrange.
\<close>

definition collided :: "boophf \<Rightarrow> nat \<Rightarrow> counter list \<Rightarrow> u64 \<Rightarrow> bool" where
  "collided B i cs k = (let j = slot B i (length cs) k in j < length cs \<and> cs ! j = Collided)"

definition leftover :: "boophf \<Rightarrow> nat \<Rightarrow> counter list \<Rightarrow> nat \<Rightarrow> u64 list \<Rightarrow> u64 list" where
  "leftover B i cs T ks = concat (map (filter (collided B i cs)) (subranges T ks))"

text \<open>
  Modelled from the spec: the level bitvector records the slots that were set once
  (section 2, step 2). \<open>level_bitvector\<close> is the bitvector of a single pass over all
  keys.
\<close>

definition bitvector :: "counter list \<Rightarrow> bool list" where
  "bitvector cs = map (\<lambda>c. c = SetOnce) cs"

definition level_bitvector :: "boophf \<Rightarrow> nat \<Rightarrow> nat \<Rightarrow> u64 list \<Rightarrow> bool list" where
  "level_bitvector B i m ks = bitvector (level_filter B i m ks)"

text \<open>Modelled from the spec: a level claims a key when the key's slot is set in its bitvector.\<close>

definition claimed :: "boophf \<Rightarrow> nat \<Rightarrow> bool list \<Rightarrow> u64 \<Rightarrow> bool" where
  "claimed B i bits k = (let j = slot B i (length bits) k in j < length bits \<and> bits ! j)"

text \<open>
  Modelled from the spec: rank is the count of set bits before a position (glossary);
  the population count of a level is the number of keys it claims.
\<close>

definition rank :: "bool list \<Rightarrow> nat \<Rightarrow> nat" where
  "rank bits j = length (filter id (take j bits))"

definition popcount :: "bool list \<Rightarrow> nat" where
  "popcount bits = length (filter id bits)"

text \<open>
  Modelled from the spec: recursion on the leftover (section 2, step 3, and 4.1). The
  colliding keys go to the next level, which has a fresh bit-array and the next seed.
  The recursion ends when no key is left, or when the depth guard is reached: then the
  fallback exact table takes the leftover keys and gives them the next free integers.
  \<open>T\<close> is the number of workers, \<open>d\<close> the number of levels still allowed, \<open>i\<close> the level
  index and \<open>off\<close> the number of integers given out so far.
\<close>

fun build :: "boophf \<Rightarrow> double \<Rightarrow> nat \<Rightarrow> nat \<Rightarrow> nat \<Rightarrow> nat \<Rightarrow> u64 list \<Rightarrow> level list \<times> (u64 \<times> u64) list" where
  "build B g T 0 i off ks = ([], zip ks (map of_nat [off..<off + length ks]))"
| "build B g T (Suc d) i off ks =
     (if ks = [] then ([], [])
      else
        let cs = level_pass B i (slot_count g (length ks)) T ks;
            bits = bitvector cs;
            rest = build B g T d (Suc i) (off + popcount bits) (leftover B i cs T ks)
        in (\<lparr>bitset = bits, rank_offset = of_nat off\<rparr> # fst rest, snd rest))"

text \<open>
  Modelled from the spec: the constructor of section 4.1, for the constructor of the
  class (\<^verbatim>\<open>BooPHF.h\<close>). Construction fails when N is zero (4.1, 7) and succeeds
  otherwise; a failure is the value \<open>Inl\<close>. The number of workers is the thread count,
  none when it is not positive. The specification describes no effect of the two
  trailing arguments: they are carried and not read. Allocation exhaustion is not
  modelled.
\<close>

definition mphf_ctor :: "boophf \<Rightarrow> u64 \<Rightarrow> u64 list \<Rightarrow> c_int \<Rightarrow> double \<Rightarrow> bool \<Rightarrow> bool \<Rightarrow> error + engine" where
  "mphf_ctor B n input_range num_thread g write_each progress =
     (if n = 0 then Inl ConstructionError
      else
        let r = build B g (nat (sint num_thread)) (unat (max_levels B)) 0 0 input_range
        in Inr \<lparr>gamma = g, nelem = n, levels = fst r, fallback = snd r\<rparr>)"

subsection \<open>Lookup\<close>

text \<open>
  Modelled from the spec: lookup (section 4.2). From level 0 upward the slot of the
  key is recomputed under the level's seed; the first level whose bitvector has the
  slot set answers with its rank offset plus the rank of the slot; when no level
  claims the key the fallback table is consulted.
\<close>

fun find_level :: "boophf \<Rightarrow> nat \<Rightarrow> level list \<Rightarrow> u64 \<Rightarrow> u64 option" where
  "find_level B i [] k = None"
| "find_level B i (l # ls) k =
     (if claimed B i (bitset l) k
      then Some (rank_offset l + of_nat (rank (bitset l) (slot B i (length (bitset l)) k)))
      else find_level B (Suc i) ls k)"

definition answer :: "boophf \<Rightarrow> nat \<Rightarrow> level list \<Rightarrow> (u64 \<times> u64) list \<Rightarrow> u64 \<Rightarrow> u64" where
  "answer B i ls fb k =
     (case find_level B i ls k of
        Some r \<Rightarrow> r
      | None \<Rightarrow> (case map_of fb k of Some v \<Rightarrow> v | None \<Rightarrow> absent B))"

definition lookup :: "boophf \<Rightarrow> engine \<Rightarrow> u64 \<Rightarrow> u64" where
  "lookup B e k = answer B 0 (levels e) (fallback e) k"

subsection \<open>Serialization\<close>

text \<open>
  Modelled from the spec: section 4.3, for the methods \<^verbatim>\<open>save\<close> and \<^verbatim>\<open>load\<close> of the class
  (\<^verbatim>\<open>BooPHF.h\<close>). \<open>save\<close> writes a self-describing byte stream:
  gamma, N and the level count, then for every level its slot count, its rank offset
  and its bitvector, then the fallback table behind its entry count. The
  specification names the contents of the stream and no layout; here every integer
  is eight bytes, least significant byte first, and a bitvector is packed eight slots
  to the byte.
\<close>

definition put64 :: "u64 \<Rightarrow> byte list" where
  "put64 x = map (\<lambda>j. ucast (drop_bit (8 * j) x)) [0..<8]"

definition get64 :: "byte list \<Rightarrow> (u64 \<times> byte list) option" where
  "get64 bs =
     (if length bs < 8 then None
      else Some (word_of_int (horner_sum uint 256 (take 8 bs)), drop 8 bs))"

definition byte_of_bits :: "bool list \<Rightarrow> byte" where
  "byte_of_bits bs = horner_sum of_bool 2 bs"

fun pack :: "bool list \<Rightarrow> byte list" where
  "pack bs = (if bs = [] then [] else byte_of_bits (take 8 bs) # pack (drop 8 bs))"

definition unpack :: "nat \<Rightarrow> byte list \<Rightarrow> bool list" where
  "unpack n bytes = take n (concat (map (\<lambda>b. map (bit b) [0..<8]) bytes))"

definition save_level :: "level \<Rightarrow> byte list" where
  "save_level l = put64 (of_nat (length (bitset l))) @ put64 (rank_offset l) @ pack (bitset l)"

definition save_entry :: "u64 \<times> u64 \<Rightarrow> byte list" where
  "save_entry kv = put64 (fst kv) @ put64 (snd kv)"

definition save :: "engine \<Rightarrow> byte list" where
  "save e =
     put64 (gamma e) @ put64 (nelem e) @ put64 (of_nat (length (levels e))) @
     concat (map save_level (levels e)) @
     put64 (of_nat (length (fallback e))) @ concat (map save_entry (fallback e))"

text \<open>
  Modelled from the spec: \<open>load\<close> fails with a format error when the stream is
  truncated (a read finds too few bytes), when the header is bad (more levels than the
  depth guard allows), or when its size does not match the embedded N (bytes are left
  over, or the slots set in the levels and the entries of the fallback table do not
  add up to N).
\<close>

definition get_level :: "byte list \<Rightarrow> (level \<times> byte list) option" where
  "get_level bs =
     (case get64 bs of
        None \<Rightarrow> None
      | Some (n, bs1) \<Rightarrow>
          (case get64 bs1 of
             None \<Rightarrow> None
           | Some (off, bs2) \<Rightarrow>
               (let nb = (unat n + 7) div 8
                in if length bs2 < nb then None
                   else Some (\<lparr>bitset = unpack (unat n) (take nb bs2), rank_offset = off\<rparr>,
                              drop nb bs2))))"

definition get_entry :: "byte list \<Rightarrow> ((u64 \<times> u64) \<times> byte list) option" where
  "get_entry bs =
     (case get64 bs of
        None \<Rightarrow> None
      | Some (k, bs1) \<Rightarrow>
          (case get64 bs1 of
             None \<Rightarrow> None
           | Some (v, bs2) \<Rightarrow> Some ((k, v), bs2)))"

fun get_many :: "(byte list \<Rightarrow> ('a \<times> byte list) option) \<Rightarrow> nat \<Rightarrow> byte list \<Rightarrow> ('a list \<times> byte list) option" where
  "get_many f 0 bs = Some ([], bs)"
| "get_many f (Suc n) bs =
     (case f bs of
        None \<Rightarrow> None
      | Some (x, bs1) \<Rightarrow>
          (case get_many f n bs1 of
             None \<Rightarrow> None
           | Some (xs, bs2) \<Rightarrow> Some (x # xs, bs2)))"

definition get_engine :: "byte list \<Rightarrow> (engine \<times> byte list) option" where
  "get_engine bs =
     (case get64 bs of
        None \<Rightarrow> None
      | Some (g, bs1) \<Rightarrow>
     (case get64 bs1 of
        None \<Rightarrow> None
      | Some (n, bs2) \<Rightarrow>
     (case get64 bs2 of
        None \<Rightarrow> None
      | Some (nl, bs3) \<Rightarrow>
     (case get_many get_level (unat nl) bs3 of
        None \<Rightarrow> None
      | Some (ls, bs4) \<Rightarrow>
     (case get64 bs4 of
        None \<Rightarrow> None
      | Some (nf, bs5) \<Rightarrow>
     (case get_many get_entry (unat nf) bs5 of
        None \<Rightarrow> None
      | Some (fb, bs6) \<Rightarrow>
          Some (\<lparr>gamma = g, nelem = n, levels = ls, fallback = fb\<rparr>, bs6)))))))"

definition covered :: "engine \<Rightarrow> nat" where
  "covered e = sum_list (map (\<lambda>l. popcount (bitset l)) (levels e)) + length (fallback e)"

definition load :: "boophf \<Rightarrow> byte list \<Rightarrow> error + engine" where
  "load B bs =
     (case get_engine bs of
        None \<Rightarrow> Inl FormatError
      | Some (e, rest) \<Rightarrow>
          if rest = [] \<and> length (levels e) \<le> unat (max_levels B) \<and> covered e = unat (nelem e)
          then Inr e else Inl FormatError)"

text \<open>
  The engines that \<open>save\<close> can write and \<open>load\<close> accepts: the counts fit their eight
  bytes, the levels respect the depth guard, and the slots set plus the fallback
  entries add up to N.
\<close>

definition well_formed :: "boophf \<Rightarrow> engine \<Rightarrow> bool" where
  "well_formed B e \<longleftrightarrow>
     length (levels e) \<le> unat (max_levels B) \<and>
     list_all (\<lambda>l. length (bitset l) < 2 ^ 64) (levels e) \<and>
     length (fallback e) < 2 ^ 64 \<and>
     covered e = unat (nelem e)"

subsection \<open>The caller's memory and the files\<close>

text \<open>
  The binding receives pointers into the caller's memory: \<open>words\<close> holds the
  \<^verbatim>\<open>uint64_t\<close> arrays by element address, \<open>chars\<close> the \<^verbatim>\<open>char\<close> buffers. \<open>files\<close> maps
  a file name to the bytes of the file. Whether a name can be opened is the file
  system's answer: \<open>room\<close> of a name is \<open>None\<close> when an output stream on it does not
  open (a missing directory, a name that is too long, no permission), and the number
  of bytes the file system takes otherwise; \<open>readable\<close> says whether an input stream
  on the name opens when the file exists.
\<close>

record world =
  words :: "nat \<Rightarrow> u64"
  chars :: "nat \<Rightarrow> byte"
  files :: "byte list \<rightharpoonup> byte list"
  room :: "byte list \<Rightarrow> nat option"
  readable :: "byte list \<Rightarrow> bool"

text \<open>\<^verbatim>\<open>vec.assign(input_range, input_range + n)\<close> copies \<open>n\<close> elements into the vector.\<close>

definition vector_assign :: "world \<Rightarrow> nat \<Rightarrow> nat \<Rightarrow> u64 list" where
  "vector_assign w input_range n = map (\<lambda>j. words w (input_range + j)) [0..<n]"

text \<open>\<^verbatim>\<open>std::string cpppath(path, size)\<close> copies \<open>size\<close> characters, NUL or not.\<close>

definition std_string :: "world \<Rightarrow> nat \<Rightarrow> nat \<Rightarrow> byte list" where
  "std_string w path n = map (\<lambda>j. chars w (path + j)) [0..<n]"

text \<open>
  A file stream constructed from a \<^verbatim>\<open>std::string\<close> opens the file named by the string's
  \<^verbatim>\<open>c_str()\<close>, read as a C string: the name ends before the first NUL. The empty name
  opens no file. \<open>ofstream\<close> is the life of the output stream: when it opens, the file
  is created or truncated, the bytes are written as far as the file system takes them,
  and the stream is closed; writes to a stream that did not open are dropped, and the
  binding never tests the stream. \<open>ifstream\<close> gives the bytes an input stream
  delivers, and \<open>None\<close> for a stream that did not open.
\<close>

definition c_str :: "byte list \<Rightarrow> byte list" where
  "c_str s = takeWhile (\<lambda>c. c \<noteq> 0) s"

definition ofstream :: "world \<Rightarrow> byte list \<Rightarrow> byte list \<Rightarrow> world" where
  "ofstream w s out =
     (if c_str s = [] then w
      else (case room w (c_str s) of
              None \<Rightarrow> w
            | Some k \<Rightarrow> w\<lparr>files := (files w)(c_str s \<mapsto> take k out)\<rparr>))"

definition ifstream :: "world \<Rightarrow> byte list \<Rightarrow> byte list option" where
  "ifstream w s =
     (if c_str s = [] \<or> \<not> readable w (c_str s) then None else files w (c_str s))"

subsection \<open>The exported functions\<close>

text \<open>
  \<^verbatim>\<open>mphf_new\<close>: the keys are copied into a local vector and the constructor is called
  with \<^verbatim>\<open>false, false\<close>; the caller's memory is only read. The function has no
  handler: a failure of the constructor is the outcome of the call.
\<close>

definition mphf_new :: "boophf \<Rightarrow> world \<Rightarrow> u64 \<Rightarrow> nat \<Rightarrow> c_int \<Rightarrow> double \<Rightarrow> (error + engine) \<times> world" where
  "mphf_new B w n input_range num_thread g =
     (let vec = vector_assign w input_range (unat n)
      in (mphf_ctor B n vec num_thread g False False, w))"

text \<open>\<^verbatim>\<open>new_mphf\<close> (\<^verbatim>\<open>ffi.cpp\<close>): the same, with the header's defaults for the two trailing arguments.\<close>

definition new_mphf :: "boophf \<Rightarrow> world \<Rightarrow> u64 \<Rightarrow> nat \<Rightarrow> c_int \<Rightarrow> double \<Rightarrow> (error + engine) \<times> world" where
  "new_mphf B w n input_range num_thread g =
     (let vec = vector_assign w input_range (unat n)
      in (mphf_ctor B n vec num_thread g (fst (default_flags B)) (snd (default_flags B)), w))"

text \<open>\<^verbatim>\<open>mphf_lookup\<close> forwards to \<^verbatim>\<open>self->lookup(elem)\<close>.\<close>

definition mphf_lookup :: "boophf \<Rightarrow> world \<Rightarrow> engine \<Rightarrow> u64 \<Rightarrow> u64 \<times> world" where
  "mphf_lookup B w self elem = (lookup B self elem, w)"

text \<open>
  \<^verbatim>\<open>mphf_save\<close>: the path string is built from \<open>size\<close> characters, an output stream is
  opened on it and \<^verbatim>\<open>self->save(output)\<close> is called; the stream is not tested and nothing
  is returned. The library's method is the parameter \<open>sv\<close>: the bytes it writes to the
  stream for an engine.
\<close>

definition mphf_save :: "(engine \<Rightarrow> byte list) \<Rightarrow> world \<Rightarrow> engine \<Rightarrow> nat \<Rightarrow> u64 \<Rightarrow> world" where
  "mphf_save sv w self path sz =
     (let cpppath = std_string w path (unat sz)
      in ofstream w cpppath (sv self))"

text \<open>
  \<^verbatim>\<open>mphf_load\<close>: the path string is built from \<open>size\<close> characters and an input stream is
  opened on it; an object is constructed with \<^verbatim>\<open>n = 0\<close>, an empty vector, one thread
  and gamma 1; \<^verbatim>\<open>obj->load(input)\<close> is called as a statement; the object is returned.
  The library's constructor and its method \<^verbatim>\<open>load\<close> are the parameters \<open>ctor\<close> and
  \<open>ld\<close>. A call of either has one of two outcomes: it fails (\<open>Inl\<close>: the failure leaves
  the call, and \<^verbatim>\<open>mphf_load\<close>, which has no handler), or it returns (\<open>Inr\<close>). A \<^verbatim>\<open>load\<close>
  that returns gives what it reports together with the state it left the object in;
  \<^verbatim>\<open>mphf_load\<close> uses the state only.
\<close>

definition mphf_load ::
  "(u64 \<Rightarrow> u64 list \<Rightarrow> c_int \<Rightarrow> double \<Rightarrow> bool \<Rightarrow> bool \<Rightarrow> 'x + engine) \<Rightarrow>
   (engine \<Rightarrow> byte list option \<Rightarrow> 'x + 'r \<times> engine) \<Rightarrow>
   world \<Rightarrow> nat \<Rightarrow> u64 \<Rightarrow> ('x + engine) \<times> world" where
  "mphf_load ctor ld w path sz =
     (let cpppath = std_string w path (unat sz);
          input = ifstream w cpppath;
          vec = []
      in (case ctor 0 vec 1 double_one False False of
            Inl x \<Rightarrow> (Inl x, w)
          | Inr obj \<Rightarrow>
              (case ld obj input of
                 Inl x \<Rightarrow> (Inl x, w)
               | Inr (r, obj') \<Rightarrow> (Inr obj', w))))"

text \<open>
  Modelled from the spec: the method \<^verbatim>\<open>load\<close> of the class (\<^verbatim>\<open>BooPHF.h\<close>), called on an
  object with a stream. A stream that did not open delivers no byte. Load failures are
  surfaced as explicit result values (section 7): the method returns its report
  and does not fail in the sense above. An accepted stream leaves the object as the
  engine read; the state a rejected stream leaves is \<open>after_rejected\<close> of the header.
\<close>

definition load_method :: "boophf \<Rightarrow> engine \<Rightarrow> byte list option \<Rightarrow> 'x + error option \<times> engine" where
  "load_method B obj input =
     (let bs = (case input of None \<Rightarrow> [] | Some bs \<Rightarrow> bs)
      in (case load B bs of
            Inr e \<Rightarrow> Inr (None, e)
          | Inl err \<Rightarrow> Inr (Some err, after_rejected B obj bs)))"

subsection \<open>Concrete inputs\<close>

text \<open>
  A header instance; a rejected load leaves its objects as they were. The world of the
  examples has the key array 10, 20, 30, 40, 50 at address 0 and the character buffer
  \<^verbatim>\<open>a\<close>, NUL, \<^verbatim>\<open>b\<close>, \<^verbatim>\<open>b\<close>, ... at address 0; it has no files, every name opens, and a file
  takes 4096 bytes.
\<close>

definition example_header :: boophf where
  "example_header =
     \<lparr>level_hash = (\<lambda>i k. k div 4 + of_nat i), max_levels = 3, absent = - 1,
      default_flags = (True, True), after_rejected = (\<lambda>obj bs. obj)\<rparr>"

definition example_world :: world where
  "example_world =
     \<lparr>words = (\<lambda>a. 10 * of_nat a + 10),
      chars = (\<lambda>a. if a = 0 then 0x61 else if a = 1 then 0 else 0x62),
      files = Map.empty,
      room = (\<lambda>nm. Some 4096),
      readable = (\<lambda>nm. True)\<rparr>"

text \<open>The engine that \<^verbatim>\<open>mphf_new\<close> builds from the five keys with one thread and gamma 2.\<close>

definition example_engine :: engine where
  "example_engine =
     \<lparr>gamma = double_two, nelem = 5,
      levels = [\<lparr>bitset = [True, False, False, False, False, True, False, True, False, False],
                 rank_offset = 0\<rparr>,
                \<lparr>bitset = [False, True, False, True], rank_offset = 3\<rparr>],
      fallback = []\<rparr>"

text \<open>
  An input of the examples, and no model of the library: a constructor that returns
  an object for every N, zero included, the engine without levels. The source of
  \<^verbatim>\<open>mphf_load\<close> reaches its call of \<^verbatim>\<open>load\<close> with such a constructor only; the constructor
  of the specification is \<open>mphf_ctor\<close>, which fails for N = 0.
\<close>

definition returning_ctor :: "u64 \<Rightarrow> u64 list \<Rightarrow> c_int \<Rightarrow> double \<Rightarrow> bool \<Rightarrow> bool \<Rightarrow> error + engine" where
  "returning_ctor n input_range num_thread g write_each progress =
     Inr \<lparr>gamma = g, nelem = n, levels = [], fallback = []\<rparr>"

text \<open>\<open>short_world\<close> has the file \<^verbatim>\<open>a\<close> with three bytes in it.\<close>

definition short_world :: world where
  "short_world = example_world\<lparr>files := Map.empty([0x61] \<mapsto> [1, 2, 3])\<rparr>"



text \<open>\<open>other_world\<close> differs from the example in the characters behind the first.\<close>

definition other_world :: world where
  "other_world = example_world\<lparr>chars := (\<lambda>a. if a = 0 then 0x61 else 0x63)\<rparr>"

text \<open>\<open>mutated_world\<close> keeps the five keys and has zero in every other word.\<close>

definition mutated_world :: world where
  "mutated_world = example_world\<lparr>words := (\<lambda>a. if a < 5 then 10 * of_nat a + 10 else 0)\<rparr>"

section \<open>The level filter\<close>

lemma length_fold_probe:
  "length (fold (\<lambda>k cs. probe cs (f k)) ks cs) = length cs"
  by (induction ks arbitrary: cs) (simp_all add: probe_def)

lemma fold_probe_nth:
  "j < length cs \<Longrightarrow>
   fold (\<lambda>k cs. probe cs (f k)) ks cs ! j = (bump ^^ length (filter (\<lambda>k. f k = j) ks)) (cs ! j)"
proof (induction ks arbitrary: cs)
  case Nil
  then show ?case by simp
next
  case (Cons k ks)
  have len: "j < length (probe cs (f k))"
    using Cons.prems by (simp add: probe_def)
  have step: "probe cs (f k) ! j = (if f k = j then bump (cs ! j) else cs ! j)"
    using Cons.prems by (auto simp: probe_def)
  show ?case
    using Cons.IH [OF len] by (simp add: step funpow_swap1)
qed

lemma bump_funpow:
  "(bump ^^ c) Unset = (if c = 0 then Unset else if c = 1 then SetOnce else Collided)"
proof (induction c)
  case 0
  then show ?case by simp
next
  case (Suc c)
  then show ?case by (cases c) simp_all
qed

lemma bump_funpow_SetOnce: "(bump ^^ c) Unset = SetOnce \<longleftrightarrow> c = 1"
  by (simp add: bump_funpow)

lemma bump_funpow_Collided: "(bump ^^ c) Unset = Collided \<longleftrightarrow> 2 \<le> c"
  by (auto simp: bump_funpow)

lemma merge_bump: "merge ((bump ^^ a) Unset) ((bump ^^ b) Unset) = (bump ^^ (a + b)) Unset"
  by (simp add: bump_funpow)

lemma length_level_filter [simp]: "length (level_filter B i m ks) = m"
  by (simp add: level_filter_def length_fold_probe)

lemma level_filter_nth:
  "j < m \<Longrightarrow> level_filter B i m ks ! j = (bump ^^ length (filter (\<lambda>k. slot B i m k = j) ks)) Unset"
  by (simp add: level_filter_def fold_probe_nth)

lemma level_filter_Nil: "level_filter B i m [] = replicate m Unset"
  by (simp add: level_filter_def)

lemma length_level_bitvector [simp]: "length (level_bitvector B i m ks) = m"
  by (simp add: level_bitvector_def bitvector_def)

lemma level_bitvector_nth:
  "j < m \<Longrightarrow> level_bitvector B i m ks ! j \<longleftrightarrow> length (filter (\<lambda>k. slot B i m k = j) ks) = 1"
  by (simp add: level_bitvector_def bitvector_def level_filter_nth bump_funpow_SetOnce)

section \<open>The pass of a level over the workers\<close>

lemma concat_subranges_take:
  "concat (map (\<lambda>t. take c (drop (t * c) ks)) [0..<T]) = take (T * c) ks"
proof (induction T)
  case 0
  then show ?case by simp
next
  case (Suc T)
  have "take (T * c) ks @ take c (drop (T * c) ks) = take (T * c + c) ks"
    by (simp add: take_add)
  then show ?case using Suc by (simp add: add.commute)
qed

lemma concat_subranges:
  assumes "1 \<le> T"
  shows "concat (subranges T ks) = ks"
proof -
  define c where "c = (length ks + T - 1) div T"
  have "length ks + T - 1 = c * T + (length ks + T - 1) mod T"
    by (simp add: c_def)
  moreover have "(length ks + T - 1) mod T < T"
    using assms by simp
  ultimately have le: "length ks \<le> T * c"
    by (simp add: mult.commute)
  have "subranges T ks = map (\<lambda>t. take c (drop (t * c) ks)) [0..<T]"
    by (simp add: subranges_def c_def Let_def)
  then show ?thesis
    using le by (simp add: concat_subranges_take)
qed

lemma merge_level_filter:
  "merge_bitmaps (level_filter B i m a) (level_filter B i m b) = level_filter B i m (b @ a)"
proof (rule nth_equalityI)
  show "length (merge_bitmaps (level_filter B i m a) (level_filter B i m b))
      = length (level_filter B i m (b @ a))"
    by (simp add: merge_bitmaps_def)
next
  fix j
  assume "j < length (merge_bitmaps (level_filter B i m a) (level_filter B i m b))"
  then have j: "j < m" by (simp add: merge_bitmaps_def)
  then show "merge_bitmaps (level_filter B i m a) (level_filter B i m b) ! j
      = level_filter B i m (b @ a) ! j"
    by (simp add: merge_bitmaps_def level_filter_nth merge_bump add.commute)
qed

lemma fold_merge_level_filter:
  "fold merge_bitmaps (map (level_filter B i m) kss) (level_filter B i m pre)
   = level_filter B i m (pre @ concat kss)"
  by (induction kss arbitrary: pre) (simp_all add: merge_level_filter)

lemma level_pass_eq:
  assumes "1 \<le> T"
  shows "level_pass B i m T ks = level_filter B i m ks"
  using fold_merge_level_filter [of B i m "subranges T ks" "[]"]
  by (simp add: level_pass_def level_filter_Nil concat_subranges [OF assms])

lemma leftover_eq:
  assumes "1 \<le> T"
  shows "leftover B i cs T ks = filter (collided B i cs) ks"
  by (simp add: leftover_def concat_subranges [OF assms] flip: filter_concat)

lemma collided_iff_unclaimed:
  assumes "0 < m" "k \<in> set ks"
  shows "collided B i (level_filter B i m ks) k \<longleftrightarrow> \<not> claimed B i (level_bitvector B i m ks) k"
proof -
  define j where "j = slot B i m k"
  define c where "c = length (filter (\<lambda>k'. slot B i m k' = j) ks)"
  have j: "j < m" using assms(1) by (simp add: j_def slot_def)
  have "filter (\<lambda>k'. slot B i m k' = j) ks \<noteq> []"
    using assms(2) by (auto simp: filter_empty_conv j_def)
  then have c: "0 < c" unfolding c_def by simp
  have "collided B i (level_filter B i m ks) k \<longleftrightarrow> 2 \<le> c"
    using j by (simp add: collided_def Let_def level_filter_nth bump_funpow_Collided flip: j_def c_def)
  moreover have "claimed B i (level_bitvector B i m ks) k \<longleftrightarrow> c = 1"
    using j level_bitvector_nth [of j m B i ks]
    by (simp add: claimed_def Let_def flip: j_def c_def)
  ultimately show ?thesis using c by auto
qed

lemma slot_count_pos:
  assumes "is_finite g" "0 < double_value g" "0 < n"
  shows "0 < slot_count g n"
proof -
  have "0 < real n * double_value g" using assms by simp
  then have "0 < \<lceil>real n * double_value g\<rceil>" by simp
  then show ?thesis using assms(1) by (simp add: slot_count_def)
qed

lemma build_Suc:
  assumes "1 \<le> T" "ks \<noteq> []" "0 < slot_count g (length ks)"
  shows "build B g T (Suc d) i off ks =
     (\<lparr>bitset = level_bitvector B i (slot_count g (length ks)) ks, rank_offset = of_nat off\<rparr>
        # fst (build B g T d (Suc i) (off + popcount (level_bitvector B i (slot_count g (length ks)) ks))
                (filter (\<lambda>k. \<not> claimed B i (level_bitvector B i (slot_count g (length ks)) ks) k) ks)),
      snd (build B g T d (Suc i) (off + popcount (level_bitvector B i (slot_count g (length ks)) ks))
                (filter (\<lambda>k. \<not> claimed B i (level_bitvector B i (slot_count g (length ks)) ks) k) ks)))"
proof -
  let ?m = "slot_count g (length ks)"
  have f: "filter (collided B i (level_filter B i ?m ks)) ks
         = filter (\<lambda>k. \<not> claimed B i (level_bitvector B i ?m ks) k) ks"
    by (rule filter_cong [OF refl]) (simp add: collided_iff_unclaimed [OF assms(3)])
  show ?thesis
    using assms(2)
    by (simp add: Let_def level_pass_eq [OF assms(1)] leftover_eq [OF assms(1)] f
        flip: level_bitvector_def)
qed

lemma build_threads:
  assumes "1 \<le> T"
  shows "build B g T d i off ks = build B g 1 d i off ks"
proof (induction d arbitrary: i off ks)
  case 0
  then show ?case by simp
next
  case (Suc d)
  have p: "level_pass B i m 1 xs = level_filter B i m xs" for m xs
    by (rule level_pass_eq) simp
  have l: "leftover B i cs 1 xs = filter (collided B i cs) xs" for cs xs
    by (rule leftover_eq) simp
  have "build B g T (Suc d) i off ks = build B g 1 (Suc d) i off ks"
    unfolding build.simps level_pass_eq [OF assms] leftover_eq [OF assms] p l Suc ..
  then show ?case .
qed

section \<open>Ranks and claimed keys\<close>

lemma rank_snoc: "j \<le> length bs \<Longrightarrow> rank (bs @ [b]) j = rank bs j"
  by (simp add: rank_def)

lemma rank_length: "rank bs (length bs) = popcount bs"
  by (simp add: rank_def popcount_def)

lemma rank_set_bits:
  "map (rank bits) (filter (\<lambda>j. bits ! j) [0..<length bits]) = [0..<popcount bits]"
proof (induction bits rule: rev_induct)
  case Nil
  then show ?case by (simp add: popcount_def)
next
  case (snoc b bs)
  have f: "filter (\<lambda>j. (bs @ [b]) ! j) [0..<length bs] = filter (\<lambda>j. bs ! j) [0..<length bs]"
    by (rule filter_cong) (simp_all add: nth_append)
  have m: "map (rank (bs @ [b])) (filter (\<lambda>j. bs ! j) [0..<length bs])
         = map (rank bs) (filter (\<lambda>j. bs ! j) [0..<length bs])"
    by (rule map_cong) (auto simp: rank_snoc)
  have p: "popcount (bs @ [b]) = popcount bs + (if b then 1 else 0)"
    by (simp add: popcount_def)
  show ?case
    using snoc.IH by (simp add: f m p rank_snoc rank_length)
qed

lemma claimed_iff:
  "claimed B i (level_bitvector B i m ks) k \<longleftrightarrow>
     slot B i m k < m \<and> length (filter (\<lambda>k'. slot B i m k' = slot B i m k) ks) = 1"
  by (auto simp: claimed_def Let_def level_bitvector_nth)

lemma length_one_unique:
  assumes "length (filter P xs) = 1" "x \<in> set xs" "P x" "y \<in> set xs" "P y"
  shows "x = y"
proof -
  obtain z where z: "filter P xs = [z]"
    using assms(1) by (cases "filter P xs") auto
  have "x \<in> set (filter P xs)" "y \<in> set (filter P xs)"
    using assms by auto
  then show ?thesis by (simp add: z)
qed

lemma length_filter_le:
  "(\<And>x. x \<in> set xs \<Longrightarrow> P x \<Longrightarrow> Q x) \<Longrightarrow> length (filter P xs) \<le> length (filter Q xs)"
  by (induction xs) auto

lemma distinct_filter_once:
  "(\<And>x. x \<in> set xs \<Longrightarrow> P x \<Longrightarrow> length (filter ((=) x) xs) \<le> 1) \<Longrightarrow> distinct (filter P xs)"
proof (induction xs)
  case Nil
  then show ?case by simp
next
  case (Cons a xs)
  have tl: "distinct (filter P xs)"
  proof (rule Cons.IH)
    fix x assume x: "x \<in> set xs" "P x"
    then have "length (filter ((=) x) (a # xs)) \<le> 1" by (intro Cons.prems) simp_all
    then show "length (filter ((=) x) xs) \<le> 1" by (simp split: if_splits)
  qed
  show ?case
  proof (cases "P a \<and> a \<in> set xs")
    case True
    then have "length (filter ((=) a) (a # xs)) \<le> 1" by (intro Cons.prems) simp_all
    then have "filter ((=) a) xs = []" by simp
    then have "a \<notin> set xs" by (auto simp: filter_empty_conv)
    with True show ?thesis by simp
  next
    case False
    with tl show ?thesis by auto
  qed
qed

lemma distinct_claimed: "distinct (filter (claimed B i (level_bitvector B i m ks)) ks)"
proof (rule distinct_filter_once)
  fix k assume "k \<in> set ks" "claimed B i (level_bitvector B i m ks) k"
  then have "length (filter (\<lambda>k'. slot B i m k' = slot B i m k) ks) = 1"
    by (simp add: claimed_iff)
  moreover have "length (filter ((=) k) ks) \<le> length (filter (\<lambda>k'. slot B i m k' = slot B i m k) ks)"
    by (rule length_filter_le) simp
  ultimately show "length (filter ((=) k) ks) \<le> 1" by simp
qed

lemma claimed_slots:
  shows "mset (map (slot B i m) (filter (claimed B i (level_bitvector B i m ks)) ks))
       = mset (filter (\<lambda>j. level_bitvector B i m ks ! j) [0..<m])"
proof -
  let ?s = "slot B i m"
  let ?bits = "level_bitvector B i m ks"
  let ?L = "map ?s (filter (claimed B i ?bits) ks)"
  let ?R = "filter (\<lambda>j. ?bits ! j) [0..<m]"
  have inj: "inj_on ?s (set (filter (claimed B i ?bits) ks))"
  proof (rule inj_onI)
    fix x y
    assume x: "x \<in> set (filter (claimed B i ?bits) ks)"
      and y: "y \<in> set (filter (claimed B i ?bits) ks)" and e: "?s x = ?s y"
    from x have "length (filter (\<lambda>k'. ?s k' = ?s x) ks) = 1" "x \<in> set ks"
      by (simp_all add: claimed_iff)
    moreover from y have "y \<in> set ks" by simp
    ultimately show "x = y"
      using e by (intro length_one_unique [of "\<lambda>k'. ?s k' = ?s x" ks x y]) simp_all
  qed
  have dL: "distinct ?L"
    using inj distinct_claimed [of B i m ks] by (simp only: distinct_map)
  have dR: "distinct ?R" by simp
  have sLR: "set ?L = set ?R"
  proof (intro set_eqI iffI)
    fix j assume "j \<in> set ?L"
    then obtain k where "k \<in> set ks" "claimed B i ?bits k" "j = ?s k" by auto
    then show "j \<in> set ?R"
      by (simp add: claimed_def Let_def)
  next
    fix j assume "j \<in> set ?R"
    then have jm: "j < m" and "?bits ! j" by simp_all
    then have j: "j < m" "length (filter (\<lambda>k. ?s k = j) ks) = 1"
      using level_bitvector_nth [of j m B i ks] by simp_all
    then obtain k where k: "filter (\<lambda>k. ?s k = j) ks = [k]"
      by (cases "filter (\<lambda>k. ?s k = j) ks") auto
    then have "k \<in> set (filter (\<lambda>k. ?s k = j) ks)" by simp
    then have kk: "k \<in> set ks" "?s k = j" by simp_all
    with j have "claimed B i ?bits k" by (simp add: claimed_iff)
    with kk show "j \<in> set ?L" by force
  qed
  show ?thesis
    using set_eq_iff_mset_eq_distinct [OF dL dR] sLR by blast
qed

lemma claimed_count:
  shows "length (filter (claimed B i (level_bitvector B i m ks)) ks) = popcount (level_bitvector B i m ks)"
proof -
  let ?bits = "level_bitvector B i m ks"
  have "length (filter (claimed B i ?bits) ks) = size (mset (map (slot B i m) (filter (claimed B i ?bits) ks)))"
    by (simp only: size_mset length_map)
  also have "\<dots> = size (mset (filter (\<lambda>j. ?bits ! j) [0..<m]))"
    by (simp only: claimed_slots)
  also have "\<dots> = length (map (rank ?bits) (filter (\<lambda>j. ?bits ! j) [0..<length ?bits]))"
    by (simp only: size_mset length_map length_level_bitvector)
  also have "\<dots> = popcount ?bits"
    by (simp only: rank_set_bits) simp
  finally show ?thesis .
qed

lemma claimed_ranks:
  shows "mset (map (\<lambda>k. rank (level_bitvector B i m ks) (slot B i m k))
                 (filter (claimed B i (level_bitvector B i m ks)) ks))
       = mset [0..<popcount (level_bitvector B i m ks)]"
proof -
  let ?bits = "level_bitvector B i m ks"
  have "mset (map (\<lambda>k. rank ?bits (slot B i m k)) (filter (claimed B i ?bits) ks))
      = image_mset (rank ?bits) (mset (map (slot B i m) (filter (claimed B i ?bits) ks)))"
    by (simp add: multiset.map_comp comp_def)
  also have "\<dots> = image_mset (rank ?bits) (mset (filter (\<lambda>j. ?bits ! j) [0..<length ?bits]))"
    by (simp only: claimed_slots length_level_bitvector)
  also have "\<dots> = mset (map (rank ?bits) (filter (\<lambda>j. ?bits ! j) [0..<length ?bits]))"
    by simp
  also have "\<dots> = mset [0..<popcount ?bits]"
    by (simp only: rank_set_bits)
  finally show ?thesis .
qed

section \<open>The construction gives every key its own integer\<close>

lemma unat_of_nat_u64: "n < 2 ^ 64 \<Longrightarrow> unat (of_nat n :: u64) = n"
  by (rule of_nat_inverse [OF refl]) simp

lemma map_shift_upt: "map (\<lambda>r. off + r) [0..<n] = [off..<off + n]"
  by (induction n) simp_all

lemma answer_fallback:
  assumes "distinct ks" "off + length ks \<le> 2 ^ 64"
  shows "map (\<lambda>k. unat (answer B i [] (zip ks (map of_nat [off..<off + length ks])) k)) ks
       = [off..<off + length ks]"
proof (rule nth_equalityI)
  show "length (map (\<lambda>k. unat (answer B i [] (zip ks (map of_nat [off..<off + length ks])) k)) ks)
      = length [off..<off + length ks]" by simp
next
  fix j
  assume "j < length (map (\<lambda>k. unat (answer B i [] (zip ks (map of_nat [off..<off + length ks])) k)) ks)"
  then have j: "j < length ks" by simp
  have "map_of (zip ks (map of_nat [off..<off + length ks])) (ks ! j)
      = Some ((map of_nat [off..<off + length ks] :: u64 list) ! j)"
    using assms(1) j by (intro map_of_zip_nth) simp_all
  then have "answer B i [] (zip ks (map of_nat [off..<off + length ks])) (ks ! j) = of_nat (off + j)"
    using j by (simp add: answer_def)
  moreover have "off + j < 2 ^ 64" using j assms(2) by simp
  ultimately have "unat (answer B i [] (zip ks (map of_nat [off..<off + length ks])) (ks ! j)) = off + j"
    by (simp only: unat_of_nat_u64)
  then show "map (\<lambda>k. unat (answer B i [] (zip ks (map of_nat [off..<off + length ks])) k)) ks ! j
      = [off..<off + length ks] ! j"
    using j by simp
qed

lemma answer_claimed:
  "claimed B i (bitset l) k \<Longrightarrow>
   answer B i (l # ls) fb k = rank_offset l + of_nat (rank (bitset l) (slot B i (length (bitset l)) k))"
  by (simp add: answer_def)

lemma answer_unclaimed:
  "\<not> claimed B i (bitset l) k \<Longrightarrow> answer B i (l # ls) fb k = answer B (Suc i) ls fb k"
  by (simp add: answer_def)

lemma build_perm:
  assumes "1 \<le> T" "is_finite g" "0 < double_value g" "distinct ks" "off + length ks \<le> 2 ^ 64"
  shows "mset (map (\<lambda>k. unat (answer B i (fst (build B g T d i off ks)) (snd (build B g T d i off ks)) k)) ks)
       = mset [off..<off + length ks]"
  using assms(4,5)
proof (induction d arbitrary: i off ks)
  case 0
  then show ?case by (simp add: answer_fallback)
next
  case (Suc d)
  show ?case
  proof (cases "ks = []")
    case True
    then show ?thesis by simp
  next
    case False
    define m where "m = slot_count g (length ks)"
    define bits where "bits = level_bitvector B i m ks"
    define pc where "pc = popcount bits"
    define left where "left = filter (\<lambda>k. \<not> claimed B i bits k) ks"
    define rest where "rest = build B g T d (Suc i) (off + pc) left"
    define l where "l = \<lparr>bitset = bits, rank_offset = (of_nat off :: u64)\<rparr>"
    have mpos: "0 < slot_count g (length ks)"
      using False by (intro slot_count_pos assms) simp
    have b: "build B g T (Suc d) i off ks = (l # fst rest, snd rest)"
      unfolding build_Suc [OF assms(1) False mpos]
      by (simp add: m_def bits_def pc_def left_def rest_def l_def)
    have lenbits: "length bits = m" by (simp add: bits_def)
    have cnt: "length (filter (claimed B i bits) ks) = pc"
      by (simp add: bits_def pc_def claimed_count)
    have split: "length ks = pc + length left"
      using sum_length_filter_compl [of "claimed B i bits" ks] cnt by (simp add: left_def)
    have dl: "distinct left" using Suc.prems(1) by (simp add: left_def)
    have bound: "off + pc + length left \<le> 2 ^ 64" using split Suc.prems(2) by simp
    have IH: "mset (map (\<lambda>k. unat (answer B (Suc i) (fst rest) (snd rest) k)) left)
            = mset [off + pc..<off + pc + length left]"
      unfolding rest_def by (rule Suc.IH [OF dl bound])
    have ranks: "mset (map (\<lambda>k. rank bits (slot B i m k)) (filter (claimed B i bits) ks)) = mset [0..<pc]"
      unfolding bits_def pc_def by (rule claimed_ranks)
    have rk: "rank bits (slot B i m k) < pc" if "k \<in> set ks" "claimed B i bits k" for k
    proof -
      have "rank bits (slot B i m k) \<in># mset (map (\<lambda>k. rank bits (slot B i m k)) (filter (claimed B i bits) ks))"
        using that by simp
      then show ?thesis by (simp only: ranks) simp
    qed
    have c1: "map (\<lambda>k. unat (answer B i (l # fst rest) (snd rest) k)) (filter (claimed B i bits) ks)
            = map (\<lambda>k. off + rank bits (slot B i m k)) (filter (claimed B i bits) ks)"
    proof (rule map_cong [OF refl])
      fix k assume "k \<in> set (filter (claimed B i bits) ks)"
      then have k: "k \<in> set ks" "claimed B i bits k" by simp_all
      have "answer B i (l # fst rest) (snd rest) k = of_nat (off + rank bits (slot B i m k))"
        using k(2) answer_claimed [of B i l k "fst rest" "snd rest"] by (simp add: l_def lenbits)
      moreover have "off + rank bits (slot B i m k) < 2 ^ 64"
        using rk [OF k] split Suc.prems(2) by simp
      ultimately show "unat (answer B i (l # fst rest) (snd rest) k) = off + rank bits (slot B i m k)"
        by (simp only: unat_of_nat_u64)
    qed
    have c2: "map (\<lambda>k. unat (answer B i (l # fst rest) (snd rest) k)) left
            = map (\<lambda>k. unat (answer B (Suc i) (fst rest) (snd rest) k)) left"
    proof (rule map_cong [OF refl])
      fix k assume "k \<in> set left"
      then have "\<not> claimed B i (bitset l) k" by (simp add: left_def l_def)
      then show "unat (answer B i (l # fst rest) (snd rest) k) = unat (answer B (Suc i) (fst rest) (snd rest) k)"
        by (simp add: answer_unclaimed)
    qed
    let ?h = "\<lambda>k. unat (answer B i (l # fst rest) (snd rest) k)"
    have "mset (map ?h ks) = mset (map ?h (filter (claimed B i bits) ks)) + mset (map ?h left)"
      unfolding left_def by (induction ks) simp_all
    also have "mset (map ?h (filter (claimed B i bits) ks)) = image_mset (\<lambda>r. off + r) (mset [0..<pc])"
      unfolding c1 by (simp only: ranks [symmetric]) (simp add: multiset.map_comp comp_def)
    also have "image_mset (\<lambda>r. off + r) (mset [0..<pc]) = mset [off..<off + pc]"
      by (simp only: mset_map [symmetric] map_shift_upt)
    also have "mset (map ?h left) = mset [off + pc..<off + pc + length left]"
      by (simp only: c2 IH)
    also have "mset [off..<off + pc] + mset [off + pc..<off + pc + length left] = mset [off..<off + length ks]"
      using upt_add_eq_append [of off "off + pc" "length left"] by (simp add: split add.assoc)
    finally show ?thesis by (simp only: b fst_conv snd_conv)
  qed
qed

section \<open>The byte stream\<close>

lemma length_put64 [simp]: "length (put64 x) = 8"
  by (simp add: put64_def)

lemma horner_put64: "word_of_int (horner_sum uint 256 (put64 x)) = x"
proof (rule bit_word_eqI)
  fix n assume n: "n < LENGTH(64)"
  have "horner_sum uint (256 :: int) (put64 x) = horner_sum uint (2 ^ LENGTH(8)) (put64 x)"
    by simp
  then have "bit (horner_sum uint (256 :: int) (put64 x)) n
      \<longleftrightarrow> n div 8 < 8 \<and> bit (put64 x ! (n div 8)) (n mod 8)"
    by (simp only: bit_horner_sum_uint_exp_iff) simp
  moreover have "n div 8 < 8" using n by simp
  moreover have "put64 x ! (n div 8) = ucast (drop_bit (8 * (n div 8)) x)"
    using \<open>n div 8 < 8\<close> by (simp add: put64_def)
  ultimately show "bit (word_of_int (horner_sum uint 256 (put64 x)) :: u64) n \<longleftrightarrow> bit x n"
    using n by (simp add: bit_simps)
qed

lemma get64_put64: "get64 (put64 x @ bs) = Some (x, bs)"
  by (simp add: get64_def horner_put64)


declare pack.simps [simp del]

lemma bits_of_byte:
  "length c \<le> 8 \<Longrightarrow> map (bit (byte_of_bits c)) [0..<8] = c @ replicate (8 - length c) False"
  by (rule nth_equalityI)
     (auto simp: byte_of_bits_def bit_horner_sum_bit_word_iff nth_append)

lemma length_pack: "length (pack bs) = (length bs + 7) div 8"
proof (induction bs rule: pack.induct)
  case (1 bs)
  show ?case
  proof (cases "bs = []")
    case True
    then show ?thesis by (simp add: pack.simps)
  next
    case False
    then have "length (pack bs) = Suc ((length bs - 8 + 7) div 8)"
      using 1 by (subst pack.simps) simp
    also have "\<dots> = (length bs + 7) div 8"
      using False by (cases "length bs \<ge> 8") (auto simp: Suc_leI div_eq_0_iff simp flip: length_greater_0_conv)
    finally show ?thesis .
  qed
qed

lemma unpack_pack: "unpack (length bs) (pack bs) = bs"
proof (induction bs rule: pack.induct)
  case (1 bs)
  show ?case
  proof (cases "bs = []")
    case True
    then show ?thesis by (simp add: pack.simps unpack_def)
  next
    case False
    have IH: "take (length bs - 8) (concat (map (\<lambda>b. map (bit b) [0..<8]) (pack (drop 8 bs)))) = drop 8 bs"
      using 1 [OF False] by (simp add: unpack_def)
    have c: "concat (map (\<lambda>b. map (bit b) [0..<8]) (pack bs))
           = (take 8 bs @ replicate (8 - length (take 8 bs)) False)
             @ concat (map (\<lambda>b. map (bit b) [0..<8]) (pack (drop 8 bs)))"
    proof -
      have "map (bit (byte_of_bits (take 8 bs))) [0..<8]
          = take 8 bs @ replicate (8 - length (take 8 bs)) False"
        by (rule bits_of_byte) simp
      then show ?thesis
        using False by (subst pack.simps) simp
    qed
    show ?thesis
    proof (cases "8 \<le> length bs")
      case True
      then have "take (length bs) (concat (map (\<lambda>b. map (bit b) [0..<8]) (pack bs)))
               = take 8 bs @ take (length bs - 8) (concat (map (\<lambda>b. map (bit b) [0..<8]) (pack (drop 8 bs))))"
        unfolding c by (simp add: min_def)
      then show ?thesis by (simp add: unpack_def IH)
    next
      case False
      then have "take (length bs) (concat (map (\<lambda>b. map (bit b) [0..<8]) (pack bs))) = bs"
        unfolding c by simp
      then show ?thesis by (simp add: unpack_def)
    qed
  qed
qed

lemma get_level_save_level:
  assumes "length (bitset l) < 2 ^ 64"
  shows "get_level (save_level l @ bs) = Some (l, bs)"
proof -
  have u: "unat (of_nat (length (bitset l)) :: u64) = length (bitset l)"
    by (rule of_nat_inverse [OF refl]) (use assms in simp)
  show ?thesis
    by (simp add: get_level_def save_level_def get64_put64 u Let_def length_pack unpack_pack)
qed

lemma get_entry_save_entry: "get_entry (save_entry kv @ bs) = Some (kv, bs)"
  by (simp add: get_entry_def save_entry_def get64_put64)

lemma get_many_concat:
  assumes "\<And>x bs. x \<in> set xs \<Longrightarrow> f (enc x @ bs) = Some (x, bs)"
  shows "get_many f (length xs) (concat (map enc xs) @ bs) = Some (xs, bs)"
  using assms by (induction xs) simp_all

lemma get_engine_save:
  assumes "length (levels e) < 2 ^ 64" "list_all (\<lambda>l. length (bitset l) < 2 ^ 64) (levels e)"
    "length (fallback e) < 2 ^ 64"
  shows "get_engine (save e @ bs) = Some (e, bs)"
proof -
  have ul: "unat (of_nat (length (levels e)) :: u64) = length (levels e)"
    by (rule of_nat_inverse [OF refl]) (use assms in simp)
  have uf: "unat (of_nat (length (fallback e)) :: u64) = length (fallback e)"
    by (rule of_nat_inverse [OF refl]) (use assms in simp)
  have ls: "get_many get_level (length (levels e)) (concat (map save_level (levels e)) @ r) = Some (levels e, r)" for r
    using assms(2) by (intro get_many_concat get_level_save_level) (simp add: list_all_iff)
  have fb: "get_many get_entry (length (fallback e)) (concat (map save_entry (fallback e)) @ r) = Some (fallback e, r)" for r
    by (intro get_many_concat get_entry_save_entry)
  show ?thesis
    by (simp add: get_engine_def save_def get64_put64 ul uf ls fb)
qed

lemma load_save:
  assumes "well_formed B e"
  shows "load B (save e) = Inr e"
proof -
  have "length (levels e) < 2 ^ 64"
  proof -
    have "unat (max_levels B) < 2 ^ LENGTH(64)" by (rule unsigned_less)
    then have "unat (max_levels B) < 2 ^ 64" by simp
    with assms show ?thesis by (simp add: well_formed_def)
  qed
  then have "get_engine (save e @ []) = Some (e, [])"
    using assms by (intro get_engine_save) (simp_all add: well_formed_def)
  then show ?thesis
    using assms by (simp add: load_def well_formed_def)
qed

section \<open>The example engine\<close>

lemma double_value_two: "double_value double_two = 2"
  by (simp add: double_value_def double_two_def Let_def)

lemma is_finite_two: "is_finite double_two"
  by (simp add: is_finite_def double_two_def)

lemma slot_count_two: "slot_count double_two m = 2 * m"
proof -
  have "real m * 2 = of_int (int (2 * m))" by simp
  then have "\<lceil>real m * 2\<rceil> = int (2 * m)" by (simp only: ceiling_of_int)
  then show ?thesis by (simp add: slot_count_def is_finite_two double_value_two)
qed

lemma build_step:
  assumes "ks \<noteq> []" "slot_count g (length ks) = m" "level_pass B i m T ks = cs"
    and "leftover B i cs T ks = rest_keys"
    and "build B g T d (Suc i) (off + popcount (bitvector cs)) rest_keys = (ls, fb)"
  shows "build B g T (Suc d) i off ks = (\<lparr>bitset = bitvector cs, rank_offset = of_nat off\<rparr> # ls, fb)"
  using assms by (simp add: Let_def)

lemma example_build:
  "build example_header double_two (Suc 0) (Suc (Suc (Suc 0))) 0 0 [10, 20, 30, 40, 50]
   = ([\<lparr>bitset = [True, False, False, False, False, True, False, True, False, False], rank_offset = 0\<rparr>,
       \<lparr>bitset = [False, True, False, True], rank_offset = 3\<rparr>], [])"
proof -
  let ?cs0 = "[SetOnce, Unset, Collided, Unset, Unset, SetOnce, Unset, SetOnce, Unset, Unset]"
  let ?cs1 = "[Unset, SetOnce, Unset, SetOnce]"
  have m0: "slot_count double_two (length [10, 20, 30, 40, 50 :: u64]) = 10"
    by (simp add: slot_count_two)
  have m1: "slot_count double_two (length [10, 50 :: u64]) = 4"
    by (simp add: slot_count_two)
  have p0: "level_pass example_header 0 10 (Suc 0) [10, 20, 30, 40, 50] = ?cs0"
    by code_simp
  have l0: "leftover example_header 0 ?cs0 (Suc 0) [10, 20, 30, 40, 50] = [10, 50]"
    by code_simp
  have p1: "level_pass example_header (Suc 0) 4 (Suc 0) [10, 50] = ?cs1"
    by code_simp
  have l1: "leftover example_header (Suc 0) ?cs1 (Suc 0) [10, 50] = []"
    by code_simp
  have b2: "build example_header double_two (Suc 0) (Suc 0) (Suc (Suc 0))
      (0 + popcount (bitvector ?cs0) + popcount (bitvector ?cs1)) [] = ([], [])"
    by simp
  have b1: "build example_header double_two (Suc 0) (Suc (Suc 0)) (Suc 0)
      (0 + popcount (bitvector ?cs0)) [10, 50]
      = ([\<lparr>bitset = bitvector ?cs1, rank_offset = of_nat (0 + popcount (bitvector ?cs0))\<rparr>], [])"
    by (rule build_step [OF _ m1 p1 l1 b2]) simp
  have b0: "build example_header double_two (Suc 0) (Suc (Suc (Suc 0))) 0 0 [10, 20, 30, 40, 50]
      = ([\<lparr>bitset = bitvector ?cs0, rank_offset = of_nat 0\<rparr>,
          \<lparr>bitset = bitvector ?cs1, rank_offset = of_nat (0 + popcount (bitvector ?cs0))\<rparr>], [])"
    by (rule build_step [OF _ m0 p0 l0 b1]) simp
  show ?thesis
    unfolding b0 by (simp add: bitvector_def popcount_def)
qed

lemma example_keys:
  "map (\<lambda>j. words example_world (0 + j)) [0..<unat (5 :: u64)] = [10, 20, 30, 40, 50]"
  by (simp add: example_world_def upt_conv_Cons)

lemma example_ctor:
  assumes "1 \<le> sint t"
  shows "mphf_ctor example_header 5 [10, 20, 30, 40, 50] t double_two a b = Inr example_engine"
proof -
  have T: "1 \<le> nat (sint t)" using assms by simp
  have m: "unat (max_levels example_header) = Suc (Suc (Suc 0))"
    by (simp add: example_header_def)
  have "build example_header double_two (nat (sint t)) (unat (max_levels example_header)) 0 0
          [10, 20, 30, 40, 50]
      = build example_header double_two (Suc 0) (Suc (Suc (Suc 0))) 0 0 [10, 20, 30, 40, 50]"
    by (simp only: m build_threads [OF T] One_nat_def)
  then show ?thesis
    by (simp add: mphf_ctor_def example_build example_engine_def del: build.simps)
qed


lemma example_lookup_20: "lookup example_header example_engine 20 = 1"
  by code_simp

lemma example_well_formed: "well_formed example_header example_engine"
  by (simp add: well_formed_def example_engine_def example_header_def covered_def popcount_def)

section \<open>Construction and lookup through the binding\<close>

lemma mphf_new_eq:
  "mphf_new B w n input_range num_thread g
     = (mphf_ctor B n (map (\<lambda>j. words w (input_range + j)) [0..<unat n]) num_thread g False False, w)"
  by (simp add: mphf_new_def vector_assign_def)

lemma new_mphf_eq:
  "new_mphf B w n input_range num_thread g
     = (mphf_ctor B n (map (\<lambda>j. words w (input_range + j)) [0..<unat n]) num_thread g
          (fst (default_flags B)) (snd (default_flags B)), w)"
  by (simp add: new_mphf_def vector_assign_def)

lemma distinct_unat_map:
  "distinct (map (\<lambda>k. unat (f k)) ks) \<Longrightarrow> distinct (map f ks)"
  by (auto simp: distinct_map inj_on_def)

lemma ctor_lookup_perm:
  assumes "distinct ks" "length ks < 2 ^ 64" "1 \<le> sint num_thread" "is_finite g" "0 < double_value g"
    and "mphf_ctor B n ks num_thread g a b = Inr self"
  shows "mset (map (\<lambda>k. unat (lookup B self k)) ks) = mset [0..<length ks]"
proof -
  let ?r = "build B g (nat (sint num_thread)) (unat (max_levels B)) 0 0 ks"
  have T: "1 \<le> nat (sint num_thread)" using assms(3) by simp
  have self: "self = \<lparr>gamma = g, nelem = n, levels = fst ?r, fallback = snd ?r\<rparr>"
    using assms(6) by (simp add: mphf_ctor_def Let_def split: if_splits)
  have bound: "0 + length ks \<le> 2 ^ 64" using assms(2) by simp
  have "mset (map (\<lambda>k. unat (answer B 0 (fst ?r) (snd ?r) k)) ks) = mset [0..<0 + length ks]"
    by (rule build_perm [OF T assms(4) assms(5) assms(1) bound])
  then show ?thesis by (simp add: lookup_def self)
qed

text \<open>
  Claim C1. For a key set of N distinct 64-bit keys, read from the caller's array, a
  thread count of at least one and a finite gamma above 1.0: \<^verbatim>\<open>mphf_new\<close> returns an
  engine when N is not zero, and \<^verbatim>\<open>mphf_lookup\<close> on an engine it returned maps the N
  keys to N pairwise distinct integers, which are exactly the integers from 0 up to
  N - 1.
\<close>

theorem mphf_lookup_bijective:
  assumes "distinct (map (\<lambda>j. words w (input_range + j)) [0..<unat n])"
    and "1 \<le> sint num_thread" and "is_finite g" and "1 < double_value g"
  shows "(n \<noteq> 0 \<longrightarrow> (\<exists>self. fst (mphf_new B w n input_range num_thread g) = Inr self)) \<and>
         (\<forall>self. fst (mphf_new B w n input_range num_thread g) = Inr self \<longrightarrow>
            distinct (map (\<lambda>j. fst (mphf_lookup B w self (words w (input_range + j)))) [0..<unat n]) \<and>
            (\<lambda>j. unat (fst (mphf_lookup B w self (words w (input_range + j))))) ` {0..<unat n}
              = {0..<unat n})"
proof (intro conjI allI impI)
  assume "n \<noteq> 0"
  then show "\<exists>self. fst (mphf_new B w n input_range num_thread g) = Inr self"
    by (simp add: mphf_new_eq mphf_ctor_def Let_def)
next
  fix self
  assume built: "fst (mphf_new B w n input_range num_thread g) = Inr self"
  let ?ks = "map (\<lambda>j. words w (input_range + j)) [0..<unat n]"
  have c: "mphf_ctor B n ?ks num_thread g False False = Inr self"
    using built by (simp add: mphf_new_eq)
  have "unat n < 2 ^ LENGTH(64)" by (rule unsigned_less)
  then have len: "length ?ks < 2 ^ 64" by simp
  have g0: "0 < double_value g" using assms(4) by simp
  have perm: "mset (map (\<lambda>k. unat (lookup B self k)) ?ks) = mset [0..<length ?ks]"
    by (rule ctor_lookup_perm [OF assms(1) len assms(2) assms(3) g0 c])
  have "distinct (map (\<lambda>k. unat (lookup B self k)) ?ks)"
    using mset_eq_imp_distinct_iff [OF perm] by simp
  then have "distinct (map (lookup B self) ?ks)"
    by (rule distinct_unat_map)
  then show "distinct (map (\<lambda>j. fst (mphf_lookup B w self (words w (input_range + j)))) [0..<unat n])"
    by (simp add: mphf_lookup_def comp_def)
  have "set (map (\<lambda>k. unat (lookup B self k)) ?ks) = set [0..<length ?ks]"
    by (rule mset_eq_setD [OF perm])
  then show "(\<lambda>j. unat (fst (mphf_lookup B w self (words w (input_range + j))))) ` {0..<unat n}
      = {0..<unat n}"
    by (simp add: mphf_lookup_def image_image)
qed

lemma example_mphf_new:
  assumes "1 \<le> sint t"
  shows "fst (mphf_new example_header example_world 5 0 t double_two) = Inr example_engine"
  by (simp only: mphf_new_eq fst_conv example_keys example_ctor [OF assms])

theorem mphf_lookup_bijective_witness:
  "fst (mphf_new example_header example_world 5 0 2 double_two) = Inr example_engine \<and>
   distinct (map (\<lambda>j. fst (mphf_lookup example_header example_world example_engine
                             (words example_world (0 + j)))) [0..<unat (5 :: u64)]) \<and>
   (\<lambda>j. unat (fst (mphf_lookup example_header example_world example_engine
                     (words example_world (0 + j))))) ` {0..<unat (5 :: u64)}
     = {0..<unat (5 :: u64)}"
proof -
  have h1: "distinct (map (\<lambda>j. words example_world (0 + j)) [0..<unat (5 :: u64)])"
    by (simp only: example_keys) simp
  have h2: "1 \<le> sint (2 :: c_int)" by simp
  have h3: "is_finite double_two" by (rule is_finite_two)
  have h4: "1 < double_value double_two" by (simp add: double_value_two)
  have e: "fst (mphf_new example_header example_world 5 0 2 double_two) = Inr example_engine"
    by (rule example_mphf_new [OF h2])
  show ?thesis
    using mphf_lookup_bijective [OF h1 h2 h3 h4, of example_header] e by blast
qed



text \<open>
  The thread count is read: without a worker no key is probed, no slot is set, and
  the engine differs from the one a single worker builds.
\<close>

lemma zero_workers:
  "fst (mphf_new example_header example_world 5 0 0 double_two)
   = Inr \<lparr>gamma = double_two, nelem = 5,
          levels = [\<lparr>bitset = replicate 10 False, rank_offset = 0\<rparr>], fallback = []\<rparr>"
proof -
  have m: "unat (max_levels example_header) = Suc (Suc (Suc 0))"
    by (simp add: example_header_def)
  have m0: "slot_count double_two (length [10, 20, 30, 40, 50 :: u64]) = 10"
    by (simp add: slot_count_two)
  have p0: "level_pass example_header 0 10 0 [10, 20, 30, 40, 50] = replicate 10 Unset"
    by (simp add: level_pass_def subranges_def)
  have l0: "leftover example_header 0 (replicate 10 Unset) 0 [10, 20, 30, 40, 50] = []"
    by (simp add: leftover_def subranges_def)
  have b1: "build example_header double_two 0 (Suc (Suc 0)) (Suc 0)
      (0 + popcount (bitvector (replicate 10 Unset))) [] = ([], [])"
    by simp
  have b0: "build example_header double_two 0 (Suc (Suc (Suc 0))) 0 0 [10, 20, 30, 40, 50]
      = ([\<lparr>bitset = bitvector (replicate 10 Unset), rank_offset = of_nat 0\<rparr>], [])"
    by (rule build_step [OF _ m0 p0 l0 b1]) simp
  have "mphf_ctor example_header 5 [10, 20, 30, 40, 50] 0 double_two False False
      = Inr \<lparr>gamma = double_two, nelem = 5,
          levels = [\<lparr>bitset = replicate 10 False, rank_offset = 0\<rparr>], fallback = []\<rparr>"
    by (simp add: mphf_ctor_def m b0 bitvector_def del: build.simps replicate.simps)
  then show ?thesis
    by (simp only: mphf_new_eq fst_conv example_keys)
qed

text \<open>
  Claim C8. Construction leaves the caller's memory as it was: \<^verbatim>\<open>mphf_new\<close> and
  \<^verbatim>\<open>new_mphf\<close> hand the constructor a copy of the \<open>n\<close> keys read at the call, so a
  memory that agrees on these \<open>n\<close> words gives the same outcome, and whatever the
  caller's memory holds afterwards, \<^verbatim>\<open>mphf_lookup\<close> on an engine gives the same result.
\<close>

theorem mphf_new_copies_keys:
  assumes "\<forall>j<unat n. words w2 (input_range + j) = words w (input_range + j)"
  shows "snd (mphf_new B w n input_range num_thread g) = w \<and>
   snd (new_mphf B w n input_range num_thread g) = w \<and>
   fst (mphf_new B w n input_range num_thread g)
     = mphf_ctor B n (map (\<lambda>j. words w (input_range + j)) [0..<unat n]) num_thread g False False \<and>
   fst (new_mphf B w n input_range num_thread g)
     = mphf_ctor B n (map (\<lambda>j. words w (input_range + j)) [0..<unat n]) num_thread g
         (fst (default_flags B)) (snd (default_flags B)) \<and>
   fst (mphf_new B w2 n input_range num_thread g) = fst (mphf_new B w n input_range num_thread g) \<and>
   fst (new_mphf B w2 n input_range num_thread g) = fst (new_mphf B w n input_range num_thread g) \<and>
   (\<forall>w3 self k. fst (mphf_lookup B w3 self k)
          = fst (mphf_lookup B (snd (mphf_new B w n input_range num_thread g)) self k)) \<and>
   (\<forall>w3 self k. fst (mphf_lookup B w3 self k)
          = fst (mphf_lookup B (snd (new_mphf B w n input_range num_thread g)) self k))"
proof -
  have v: "map (\<lambda>j. words w2 (input_range + j)) [0..<unat n]
         = map (\<lambda>j. words w (input_range + j)) [0..<unat n]"
    using assms by simp
  show ?thesis
    by (simp add: mphf_new_eq new_mphf_eq v mphf_lookup_def)
qed

theorem mphf_new_copies_keys_witness:
  "snd (mphf_new example_header example_world 5 0 1 double_two) = example_world \<and>
   snd (new_mphf example_header example_world 5 0 1 double_two) = example_world \<and>
   fst (mphf_new example_header example_world 5 0 1 double_two)
     = mphf_ctor example_header 5 (map (\<lambda>j. words example_world (0 + j)) [0..<unat (5 :: u64)])
         1 double_two False False \<and>
   fst (new_mphf example_header example_world 5 0 1 double_two)
     = mphf_ctor example_header 5 (map (\<lambda>j. words example_world (0 + j)) [0..<unat (5 :: u64)])
         1 double_two (fst (default_flags example_header)) (snd (default_flags example_header)) \<and>
   fst (mphf_new example_header mutated_world 5 0 1 double_two)
     = fst (mphf_new example_header example_world 5 0 1 double_two) \<and>
   fst (new_mphf example_header mutated_world 5 0 1 double_two)
     = fst (new_mphf example_header example_world 5 0 1 double_two) \<and>
   (\<forall>w3 self k. fst (mphf_lookup example_header w3 self k)
          = fst (mphf_lookup example_header
                   (snd (mphf_new example_header example_world 5 0 1 double_two)) self k)) \<and>
   (\<forall>w3 self k. fst (mphf_lookup example_header w3 self k)
          = fst (mphf_lookup example_header
                   (snd (new_mphf example_header example_world 5 0 1 double_two)) self k))"
proof -
  have h: "\<forall>j<unat (5 :: u64). words mutated_world (0 + j) = words example_world (0 + j)"
    by (simp add: mutated_world_def example_world_def)
  show ?thesis
    by (rule mphf_new_copies_keys [OF h])
qed

section \<open>Saving and loading through the binding\<close>

lemma std_string_cong:
  "(\<And>j. j < n \<Longrightarrow> chars w2 (path2 + j) = chars w (path + j)) \<Longrightarrow> std_string w2 path2 n = std_string w path n"
  by (simp add: std_string_def)

lemma ofstream_frame [simp]:
  "chars (ofstream w s out) = chars w"
  "room (ofstream w s out) = room w"
  "readable (ofstream w s out) = readable w"
  "words (ofstream w s out) = words w"
  by (simp_all add: ofstream_def split: option.splits)

lemma mphf_save_frame [simp]:
  "chars (mphf_save sv w self path sz) = chars w"
  "room (mphf_save sv w self path sz) = room w"
  "readable (mphf_save sv w self path sz) = readable w"
  "words (mphf_save sv w self path sz) = words w"
  by (simp_all add: mphf_save_def Let_def)

lemma std_string_after_save [simp]:
  "std_string (mphf_save sv w self path sz) p n = std_string w p n"
  by (simp add: std_string_def)

text \<open>
  Under an empty file name nothing is written, whatever the library: what \<^verbatim>\<open>mphf_load\<close>
  returns afterwards does not depend on the engine that was saved.
\<close>

lemma mphf_save_empty_name:
  "c_str (std_string w path (unat sz)) = [] \<Longrightarrow> mphf_save sv w self path sz = w"
  by (simp add: mphf_save_def Let_def ofstream_def)

lemma mphf_load_after_empty_name:
  "c_str (std_string w path (unat sz)) = [] \<Longrightarrow>
   mphf_load ctor ld (mphf_save sv w self path sz) path sz = mphf_load ctor ld w path sz"
  by (simp only: mphf_save_empty_name)



lemma load_short: "load B [1, 2, 3] = Inl FormatError"
  by (simp add: load_def get_engine_def get64_def)


lemma lookup_empty: "lookup B \<lparr>gamma = g, nelem = n, levels = [], fallback = []\<rparr> k = absent B"
  by (simp add: lookup_def answer_def)



lemma length_save_example: "length (save example_engine) \<le> 4096"
  by (simp add: save_def save_level_def save_entry_def example_engine_def length_pack)





lemma mphf_load_returning:
  "fst (mphf_load returning_ctor (load_method B) w path sz)
   = Inr (case load B (case ifstream w (std_string w path (unat sz)) of None \<Rightarrow> [] | Some bs \<Rightarrow> bs) of
            Inr e \<Rightarrow> e
          | Inl err \<Rightarrow> after_rejected B \<lparr>gamma = double_one, nelem = 0, levels = [], fallback = []\<rparr>
                        (case ifstream w (std_string w path (unat sz)) of None \<Rightarrow> [] | Some bs \<Rightarrow> bs))"
  by (simp add: mphf_load_def returning_ctor_def load_method_def Let_def split: sum.splits)

lemma mphf_load_spec_ctor:
  "fst (mphf_load (mphf_ctor B) ld w path sz) = Inl ConstructionError"
  by (simp add: mphf_load_def mphf_ctor_def Let_def)



text \<open>
  Claim C3, amended. \<^verbatim>\<open>mphf_load\<close> has no error return: whenever the library's constructor
  returns the object and the library's \<^verbatim>\<open>load\<close> returns, whatever \<^verbatim>\<open>load\<close> reports about
  the stream, a format error included, \<^verbatim>\<open>mphf_load\<close> returns the object in the state
  \<^verbatim>\<open>load\<close> left it in, and a \<^verbatim>\<open>load\<close> that differs in its reports only gives the same
  result.
\<close>

theorem mphf_load_drops_the_report:
  assumes "ctor 0 [] 1 double_one False False = Inr obj"
    and "ld obj (ifstream w (std_string w path (unat sz))) = Inr (r, obj')"
    and "\<forall>ob s. map_sum id snd (ld' ob s) = map_sum id snd (ld ob s)"
  shows "mphf_load ctor ld w path sz = (Inr obj', w) \<and>
         mphf_load ctor ld' w path sz = (Inr obj', w)"
proof -
  have a: "mphf_load ctor ld w path sz = (Inr obj', w)"
    by (simp add: mphf_load_def Let_def assms(1) assms(2))
  have "map_sum id snd (ld' obj (ifstream w (std_string w path (unat sz)))) = Inr obj'"
    using assms(3) by (simp add: assms(2))
  then obtain r2 where "ld' obj (ifstream w (std_string w path (unat sz))) = Inr (r2, obj')"
    by (cases "ld' obj (ifstream w (std_string w path (unat sz)))") auto
  then have b: "mphf_load ctor ld' w path sz = (Inr obj', w)"
    by (simp add: mphf_load_def Let_def assms(1))
  from a b show ?thesis by simp
qed

lemma short_stream: "ifstream short_world (std_string short_world 0 (unat (1 :: u64))) = Some [1, 2, 3]"
  by (simp add: ifstream_def c_str_def std_string_def short_world_def example_world_def)

theorem mphf_load_drops_the_report_witness:
  "load_method example_header \<lparr>gamma = double_one, nelem = 0, levels = [], fallback = []\<rparr>
     (ifstream short_world (std_string short_world 0 (unat (1 :: u64))))
     = (Inr (Some FormatError, \<lparr>gamma = double_one, nelem = 0, levels = [], fallback = []\<rparr>)
          :: error + error option \<times> engine) \<and>
   mphf_load returning_ctor (load_method example_header) short_world 0 1
     = (Inr \<lparr>gamma = double_one, nelem = 0, levels = [], fallback = []\<rparr>, short_world) \<and>
   mphf_load returning_ctor
       (\<lambda>ob s. map_sum id (\<lambda>p. ((), snd p)) (load_method example_header ob s)) short_world 0 1
     = (Inr \<lparr>gamma = double_one, nelem = 0, levels = [], fallback = []\<rparr>, short_world)"
proof -
  let ?obj = "\<lparr>gamma = double_one, nelem = 0, levels = [], fallback = []\<rparr>"
  let ?ld = "load_method example_header :: engine \<Rightarrow> byte list option \<Rightarrow> error + error option \<times> engine"
  let ?ld2 = "\<lambda>ob s. map_sum id (\<lambda>p. ((), snd p)) (?ld ob s)"
  have h1: "returning_ctor 0 [] 1 double_one False False = Inr ?obj"
    by (simp add: returning_ctor_def)
  have h2: "?ld ?obj (ifstream short_world (std_string short_world 0 (unat (1 :: u64))))
          = Inr (Some FormatError, ?obj)"
    by (simp only: short_stream) (simp add: load_method_def load_short example_header_def)
  have h3: "\<forall>ob s. map_sum id snd (?ld2 ob s) = map_sum id snd (?ld ob s)"
    by (simp add: sum.map_comp comp_def id_def)
  show ?thesis
    using mphf_load_drops_the_report [where ctor = returning_ctor and ld = ?ld and ld' = ?ld2,
        OF h1 h2 h3] h2
    by simp
qed

text \<open>
  The file \<^verbatim>\<open>a\<close> of three bytes is a truncated stream: the \<^verbatim>\<open>load\<close> of the specification
  rejects it with a format error. \<^verbatim>\<open>mphf_load\<close> on that file returns an object all the
  same, and \<^verbatim>\<open>mphf_lookup\<close> answers on it; no format error reaches the caller. With the
  constructor of the specification, which fails for N = 0, the failure of \<^verbatim>\<open>mphf_load\<close>
  is a construction error, on this stream as on every other.
\<close>

theorem mphf_load_truncated_counterexample:
  "ifstream short_world (std_string short_world 0 (unat (1 :: u64))) = Some [1, 2, 3] \<and>
   load example_header [1, 2, 3] = Inl FormatError \<and>
   fst (mphf_load returning_ctor (load_method example_header) short_world 0 1)
     = Inr \<lparr>gamma = double_one, nelem = 0, levels = [], fallback = []\<rparr> \<and>
   fst (mphf_lookup example_header short_world
          \<lparr>gamma = double_one, nelem = 0, levels = [], fallback = []\<rparr> 10) = - 1 \<and>
   fst (mphf_load (mphf_ctor example_header) (load_method example_header) short_world 0 1)
     = Inl ConstructionError"
proof -
  have rej: "after_rejected example_header obj bs = obj" for obj bs
    by (simp add: example_header_def)
  have a: "fst (mphf_load returning_ctor (load_method example_header) short_world 0 1)
     = Inr \<lparr>gamma = double_one, nelem = 0, levels = [], fallback = []\<rparr>"
    by (simp only: mphf_load_returning short_stream) (simp add: load_short rej)
  have b: "fst (mphf_lookup example_header short_world
          \<lparr>gamma = double_one, nelem = 0, levels = [], fallback = []\<rparr> 10) = - 1"
    by (simp add: mphf_lookup_def lookup_empty example_header_def)
  from a b short_stream show ?thesis
    by (simp only: load_short mphf_load_spec_ctor)
qed

text \<open>
  Claim C9, amended. \<^verbatim>\<open>mphf_save\<close> and \<^verbatim>\<open>mphf_load\<close> read the first \<open>size\<close> characters of
  the buffer and nothing behind them, and need no NUL terminator. The file each of
  them opens is named by those characters up to, and without, the first NUL among
  them: \<^verbatim>\<open>mphf_save\<close> writes that file, when the name is not empty and the output stream
  opens, and \<^verbatim>\<open>mphf_load\<close> hands the library's \<^verbatim>\<open>load\<close> the bytes of that file, or a
  stream that did not open.
\<close>

theorem path_is_read_as_c_string:
  assumes "\<forall>j<unat sz. chars w2 (path2 + j) = chars w (path + j)"
    and "files w2 = files w" and "room w2 = room w" and "readable w2 = readable w"
  shows "files (mphf_save sv w2 self path2 sz) = files (mphf_save sv w self path sz) \<and>
         fst (mphf_load ctor ld w2 path2 sz) = fst (mphf_load ctor ld w path sz) \<and>
         (let nm = takeWhile (\<lambda>c. c \<noteq> 0) (map (\<lambda>j. chars w (path + j)) [0..<unat sz])
          in files (mphf_save sv w self path sz)
               = (if nm = [] then files w
                  else (case room w nm of
                          None \<Rightarrow> files w
                        | Some k \<Rightarrow> (files w)(nm \<mapsto> take k (sv self)))) \<and>
             fst (mphf_load ctor ld w path sz)
               = (case ctor 0 [] 1 double_one False False of
                    Inl x \<Rightarrow> Inl x
                  | Inr obj \<Rightarrow>
                      (case ld obj (if nm = [] \<or> \<not> readable w nm then None else files w nm) of
                         Inl x \<Rightarrow> Inl x
                       | Inr ro \<Rightarrow> Inr (snd ro))))"
proof -
  have s: "std_string w2 path2 (unat sz) = std_string w path (unat sz)"
    using assms(1) by (intro std_string_cong) simp
  have a: "files (mphf_save sv w2 self path2 sz) = files (mphf_save sv w self path sz)"
    by (simp add: mphf_save_def Let_def s ofstream_def assms(2) assms(3) split: option.splits)
  have b: "fst (mphf_load ctor ld w2 path2 sz) = fst (mphf_load ctor ld w path sz)"
    by (simp add: mphf_load_def Let_def s ifstream_def assms(2) assms(4) split: sum.splits)
  have c: "files (mphf_save sv w self path sz)
      = (if c_str (std_string w path (unat sz)) = [] then files w
         else (case room w (c_str (std_string w path (unat sz))) of
                 None \<Rightarrow> files w
               | Some k \<Rightarrow> (files w)(c_str (std_string w path (unat sz)) \<mapsto> take k (sv self))))"
    by (simp add: mphf_save_def Let_def ofstream_def split: option.splits)
  have d: "fst (mphf_load ctor ld w path sz)
      = (case ctor 0 [] 1 double_one False False of
           Inl x \<Rightarrow> Inl x
         | Inr obj \<Rightarrow>
             (case ld obj (if c_str (std_string w path (unat sz)) = []
                             \<or> \<not> readable w (c_str (std_string w path (unat sz)))
                           then None else files w (c_str (std_string w path (unat sz)))) of
                Inl x \<Rightarrow> Inl x
              | Inr ro \<Rightarrow> Inr (snd ro)))"
    by (simp add: mphf_load_def Let_def ifstream_def split: sum.splits prod.splits)
  have n: "c_str (std_string w path (unat sz))
         = takeWhile (\<lambda>c. c \<noteq> 0) (map (\<lambda>j. chars w (path + j)) [0..<unat sz])"
    by (simp add: c_str_def std_string_def)
  from a b c d show ?thesis
    by (simp only: n Let_def simp_thms)
qed

theorem path_is_read_as_c_string_witness:
  "files (mphf_save save other_world example_engine 0 1)
     = files (mphf_save save example_world example_engine 0 1) \<and>
   fst (mphf_load returning_ctor (load_method example_header) other_world 0 1)
     = fst (mphf_load returning_ctor (load_method example_header) example_world 0 1) \<and>
   files (mphf_save save example_world example_engine 0 1)
     = (files example_world)([0x61] \<mapsto> take 4096 (save example_engine))"
proof -
  have h1: "\<forall>j<unat (1 :: u64). chars other_world (0 + j) = chars example_world (0 + j)"
    by (simp add: other_world_def example_world_def)
  have h2: "files other_world = files example_world"
    by (simp add: other_world_def)
  have h3: "room other_world = room example_world"
    by (simp add: other_world_def)
  have h4: "readable other_world = readable example_world"
    by (simp add: other_world_def)
  have n: "takeWhile (\<lambda>c. c \<noteq> 0) (map (\<lambda>j. chars example_world (0 + j)) [0..<unat (1 :: u64)]) = [0x61]"
    by (simp add: example_world_def)
  have r: "room example_world [0x61] = Some 4096"
    by (simp add: example_world_def)
  show ?thesis
    using path_is_read_as_c_string [where sv = save and self = example_engine
        and ctor = returning_ctor and ld = "load_method example_header", OF h1 h2 h3 h4]
    by (simp only: n Let_def r) simp
qed

lemma std_string_3: "std_string example_world 0 (unat (3 :: u64)) = [0x61, 0, 0x62]"
  by (simp add: std_string_def example_world_def upt_conv_Cons)

lemma c_str_3: "c_str [0x61, 0, 0x62 :: byte] = [0x61]"
  by (simp add: c_str_def)

text \<open>
  A NUL among the first \<open>size\<close> characters ends the file name. Saving under the three
  characters \<^verbatim>\<open>a\<close>, NUL, \<^verbatim>\<open>b\<close> writes the file \<^verbatim>\<open>a\<close> and no file of the three-character
  name; loading under the three characters reads the file \<^verbatim>\<open>a\<close>.
\<close>

theorem path_nul_counterexample:
  "std_string example_world 0 (unat (3 :: u64)) = [0x61, 0, 0x62] \<and>
   files (mphf_save save example_world example_engine 0 3) [0x61, 0, 0x62] = None \<and>
   files (mphf_save save example_world example_engine 0 3) [0x61] = Some (save example_engine) \<and>
   files short_world [0x61, 0, 0x62] = None \<and>
   files short_world [0x61] = Some [1, 2, 3] \<and>
   ifstream short_world (std_string short_world 0 (unat (3 :: u64))) = Some [1, 2, 3] \<and>
   fst (mphf_load returning_ctor (load_method example_header)
          (mphf_save save example_world example_engine 0 3) 0 3) = Inr example_engine"
proof -
  have t: "take 4096 (save example_engine) = save example_engine"
    using length_save_example by simp
  have f: "files (mphf_save save example_world example_engine 0 3)
         = Map.empty([0x61] \<mapsto> save example_engine)"
    by (simp only: mphf_save_def Let_def std_string_3 ofstream_def c_str_3)
       (simp add: example_world_def t)
  have s: "std_string short_world 0 (unat (3 :: u64)) = [0x61, 0, 0x62]"
    using std_string_3 by (simp add: std_string_def short_world_def)
  have i: "ifstream short_world (std_string short_world 0 (unat (3 :: u64))) = Some [1, 2, 3]"
    by (simp only: s ifstream_def c_str_3) (simp add: short_world_def example_world_def)
  have "ifstream (mphf_save save example_world example_engine 0 3)
          (std_string example_world 0 (unat (3 :: u64))) = Some (save example_engine)"
    by (simp only: ifstream_def std_string_3 c_str_3 f) (simp add: example_world_def)
  then have l: "fst (mphf_load returning_ctor (load_method example_header)
          (mphf_save save example_world example_engine 0 3) 0 3) = Inr example_engine"
    by (simp only: mphf_load_returning std_string_after_save)
       (simp add: load_save [OF example_well_formed])
  show ?thesis
    using l i by (simp only: std_string_3 f) (simp add: short_world_def)
qed

end
